theory Spec2Isabelle
  imports Main "HOL-Library.Word" "HOL-Library.Multiset"
begin

section \<open>Visited ledger: internal/scraper/tracker.go, Tracker\<close>

text \<open>
  \<^verbatim>\<open>type Tracker struct { visited sync.Map; count atomic.Int64 }\<close>.
  The map from URL to status code is a partial map; the counter is a signed 64-bit
  machine integer whose addition wraps. Status codes are Go \<^verbatim>\<open>int\<close> values that are
  only stored and read back, never computed with.
  The model is sequential: \<^verbatim>\<open>sync.Map.Swap\<close> and \<^verbatim>\<open>atomic.Int64.Add\<close> are each atomic,
  and the properties below speak about a finite sequence of calls.
\<close>

record Tracker =
  visited :: "string \<rightharpoonup> int"
  count :: "64 word"

definition NewTracker :: Tracker where
  "NewTracker = \<lparr> visited = Map.empty, count = 0 \<rparr>"

text \<open>
  \<^verbatim>\<open>_, existed := t.visited.Swap(url, statusCode); if !existed { t.count.Add(1) }\<close>
\<close>

definition MarkVisited :: "Tracker \<Rightarrow> string \<Rightarrow> int \<Rightarrow> Tracker" where
  "MarkVisited t url statusCode =
     (let existed = (visited t url \<noteq> None);
          t1 = t\<lparr> visited := (visited t)(url \<mapsto> statusCode) \<rparr>
      in if \<not> existed then t1\<lparr> count := count t1 + 1 \<rparr> else t1)"

definition IsVisited :: "Tracker \<Rightarrow> string \<Rightarrow> bool" where
  "IsVisited t url = (case visited t url of None \<Rightarrow> False | Some _ \<Rightarrow> True)"

definition GetStatus :: "Tracker \<Rightarrow> string \<Rightarrow> int \<times> bool" where
  "GetStatus t url = (case visited t url of None \<Rightarrow> (0, False) | Some v \<Rightarrow> (v, True))"

text \<open>\<^verbatim>\<open>return int(t.count.Load())\<close>: the signed reading of the counter.\<close>

definition VisitedCount :: "Tracker \<Rightarrow> int" where
  "VisitedCount t = sint (count t)"

text \<open>A finite sequence of \<^verbatim>\<open>MarkVisited\<close> calls, oldest first.\<close>

fun mark_all :: "Tracker \<Rightarrow> (string \<times> int) list \<Rightarrow> Tracker" where
  "mark_all t [] = t"
| "mark_all t ((url, statusCode) # calls) = mark_all (MarkVisited t url statusCode) calls"

subsection \<open>Ledger lemmas\<close>

definition tracker_inv :: "Tracker \<Rightarrow> bool" where
  "tracker_inv t \<longleftrightarrow> finite (dom (visited t)) \<and> count t = of_nat (card (dom (visited t)))"

lemma tracker_inv_New: "tracker_inv NewTracker"
  by (simp add: tracker_inv_def NewTracker_def)

lemma tracker_inv_Mark: "tracker_inv t \<Longrightarrow> tracker_inv (MarkVisited t u s)"
proof -
  assume inv: "tracker_inv t"
  show ?thesis
  proof (cases "visited t u")
    case None
    then have "u \<notin> dom (visited t)" by auto
    with inv None show ?thesis
      by (simp add: tracker_inv_def MarkVisited_def Let_def)
  next
    case (Some v)
    then have "insert u (dom (visited t)) = dom (visited t)" by auto
    with inv Some show ?thesis
      by (simp add: tracker_inv_def MarkVisited_def Let_def)
  qed
qed

lemma tracker_inv_mark_all: "tracker_inv t \<Longrightarrow> tracker_inv (mark_all t calls)"
  by (induction t calls rule: mark_all.induct) (auto intro: tracker_inv_Mark)

lemma visited_Mark: "visited (MarkVisited t u s) = (visited t)(u \<mapsto> s)"
  by (simp add: MarkVisited_def Let_def)

lemma visited_mark_all:
  "visited (mark_all t calls) x =
     (case map_of (rev calls) x of None \<Rightarrow> visited t x | Some s \<Rightarrow> Some s)"
proof (induction t calls rule: mark_all.induct)
  case (1 t)
  show ?case by simp
next
  case (2 t url statusCode calls)
  show ?case
    by (simp add: 2 visited_Mark map_add_def split: option.splits)
qed

lemma dom_visited_mark_all:
  "dom (visited (mark_all t calls)) = dom (visited t) \<union> fst ` set calls"
proof (induction t calls rule: mark_all.induct)
  case (1 t)
  show ?case by simp
next
  case (2 t url statusCode calls)
  show ?case by (simp add: 2 visited_Mark) auto
qed

lemma sint_of_nat_64: "n < 2 ^ 63 \<Longrightarrow> sint (of_nat n :: 64 word) = int n"
  by (simp add: signed_of_nat signed_take_bit_int_eq_self)

text \<open>
  C7. After any finite sequence of MarkVisited calls on a fresh ledger, the counter reads
  the number of distinct URLs in the sequence (for fewer than 2^63 calls, the range of the
  signed 64-bit counter); GetStatus of a URL returns the status of the most recent call
  for it with found = true, and (0, false) for a URL never marked; IsVisited is true
  exactly for the marked URLs.
\<close>

theorem C7_ledger_counted_upsert:
  assumes "length calls < 2 ^ 63"
  shows "VisitedCount (mark_all NewTracker calls) = int (card (fst ` set calls))
       \<and> GetStatus (mark_all NewTracker calls) u =
           (case map_of (rev calls) u of None \<Rightarrow> (0, False) | Some s \<Rightarrow> (s, True))
       \<and> (u \<notin> fst ` set calls \<longrightarrow>
            GetStatus (mark_all NewTracker calls) u = (0, False)
          \<and> \<not> IsVisited (mark_all NewTracker calls) u)
       \<and> (u \<in> fst ` set calls \<longrightarrow> IsVisited (mark_all NewTracker calls) u)"
proof -
  let ?t = "mark_all NewTracker calls"
  have inv: "tracker_inv ?t"
    by (rule tracker_inv_mark_all [OF tracker_inv_New])
  have dom: "dom (visited ?t) = fst ` set calls"
    by (simp add: dom_visited_mark_all NewTracker_def)
  have "card (fst ` set calls) \<le> length calls"
    by (metis card_image_le card_length le_trans List.finite_set)
  with assms have small: "card (fst ` set calls) < 2 ^ 63" by simp
  have cnt: "VisitedCount ?t = int (card (fst ` set calls))"
    using inv dom small by (simp add: VisitedCount_def tracker_inv_def sint_of_nat_64)
  have vis: "visited ?t u = map_of (rev calls) u"
    by (simp add: visited_mark_all NewTracker_def split: option.splits)
  have st: "GetStatus ?t u =
      (case map_of (rev calls) u of None \<Rightarrow> (0, False) | Some s \<Rightarrow> (s, True))"
    by (simp add: GetStatus_def vis)
  have notin: "u \<notin> fst ` set calls \<longrightarrow> GetStatus ?t u = (0, False) \<and> \<not> IsVisited ?t u"
  proof
    assume "u \<notin> fst ` set calls"
    then have "visited ?t u = None" using dom by blast
    then show "GetStatus ?t u = (0, False) \<and> \<not> IsVisited ?t u"
      by (simp add: GetStatus_def IsVisited_def)
  qed
  have isin: "u \<in> fst ` set calls \<longrightarrow> IsVisited ?t u"
  proof
    assume "u \<in> fst ` set calls"
    then have "u \<in> dom (visited ?t)" using dom by simp
    then show "IsVisited ?t u" by (auto simp: IsVisited_def)
  qed
  from cnt st notin isin show ?thesis by blast
qed

theorem C7_ledger_counted_upsert_witness:
  "VisitedCount (mark_all NewTracker [(''a'', 0), (''b'', 200), (''a'', 404)]) = 2
   \<and> GetStatus (mark_all NewTracker [(''a'', 0), (''b'', 200), (''a'', 404)]) ''a'' = (404, True)
   \<and> GetStatus (mark_all NewTracker [(''a'', 0), (''b'', 200), (''a'', 404)]) ''c'' = (0, False)"
proof -
  have len: "length [(''a'', 0::int), (''b'', 200), (''a'', 404)] < 2 ^ 63" by simp
  have card2: "card (fst ` set [(''a'', 0::int), (''b'', 200), (''a'', 404)]) = 2"
    by (simp add: card_insert_if)
  show ?thesis
    using C7_ledger_counted_upsert [OF len, of "''a''"]
          C7_ledger_counted_upsert [OF len, of "''c''"] card2
    by simp
qed

section \<open>Resource types and weights: internal/urlutil/filter.go\<close>

text \<open>
  \<^verbatim>\<open>type ResourceType int\<close> with the constants numbered by \<^verbatim>\<open>iota\<close>. The type is an
  integer, so \<^verbatim>\<open>GetWeight\<close> keeps its \<^verbatim>\<open>default\<close> branch.
\<close>

type_synonym ResourceType = int

definition ResourceUnknown :: ResourceType where "ResourceUnknown = 0"
definition ResourceHTML :: ResourceType where "ResourceHTML = 1"
definition ResourceCSS :: ResourceType where "ResourceCSS = 2"
definition ResourceJS :: ResourceType where "ResourceJS = 3"
definition ResourceImage :: ResourceType where "ResourceImage = 4"
definition ResourceFont :: ResourceType where "ResourceFont = 5"
definition ResourceOther :: ResourceType where "ResourceOther = 6"

definition GetWeight :: "ResourceType \<Rightarrow> int" where
  "GetWeight rt =
     (if rt = ResourceHTML then 100
      else if rt = ResourceCSS then 75
      else if rt = ResourceJS then 50
      else if rt = ResourceImage then 25
      else if rt = ResourceFont then 20
      else if rt = ResourceOther then 10
      else if rt = ResourceUnknown then 5
      else 0)"

section \<open>Priority frontier: internal/scraper/tracker.go, Queue\<close>

record QueueItem =
  URL :: string
  Type :: ResourceType

definition Weight :: "QueueItem \<Rightarrow> int" where
  "Weight qi = GetWeight (Type qi)"

text \<open>
  \<^verbatim>\<open>type priorityQueue []*QueueItem\<close> with the five methods of \<^verbatim>\<open>heap.Interface\<close>.
  Indices are Go \<^verbatim>\<open>int\<close>s that are never negative in the calls below; they are naturals
  here. \<^verbatim>\<open>Less\<close> and \<^verbatim>\<open>Swap\<close> are only called with indices inside the slice.
\<close>

type_synonym priorityQueue = "QueueItem list"

definition pq_Len :: "priorityQueue \<Rightarrow> nat" where
  "pq_Len h = length h"

definition pq_Less :: "priorityQueue \<Rightarrow> nat \<Rightarrow> nat \<Rightarrow> bool" where
  "pq_Less h i j \<longleftrightarrow> Weight (h ! i) > Weight (h ! j)"

definition pq_Swap :: "priorityQueue \<Rightarrow> nat \<Rightarrow> nat \<Rightarrow> priorityQueue" where
  "pq_Swap h i j = h[i := h ! j, j := h ! i]"

definition pq_Push :: "priorityQueue \<Rightarrow> QueueItem \<Rightarrow> priorityQueue" where
  "pq_Push h item = h @ [item]"

text \<open>
  \<^verbatim>\<open>item := old[n-1]; *pq = old[0 : n-1]; return item\<close>. On an empty slice the index
  expression panics: \<open>None\<close>.
\<close>

definition pq_Pop :: "priorityQueue \<Rightarrow> (QueueItem \<times> priorityQueue) option" where
  "pq_Pop h = (if h = [] then None else Some (last h, butlast h))"

subsection \<open>The heap operations of Go's container/heap, over priorityQueue\<close>

text \<open>
  \<^verbatim>\<open>up\<close>: \<^verbatim>\<open>for { i := (j - 1) / 2; if i == j || !h.Less(j, i) { break }; h.Swap(i, j); j = i }\<close>.
  Go's integer division truncates towards zero, so for \<open>j = 0\<close> the parent index
  \<open>(0 - 1) / 2\<close> is \<open>0\<close>; the truncating subtraction on naturals gives the same.
\<close>

function up :: "priorityQueue \<Rightarrow> nat \<Rightarrow> priorityQueue" where
  "up h j =
     (let i = (j - 1) div 2
      in if i = j \<or> \<not> pq_Less h j i then h else up (pq_Swap h i j) i)"
  by pat_completeness auto
termination
  by (relation "measure (\<lambda>(h, j). j)") auto

text \<open>
  \<^verbatim>\<open>down\<close>: from \<open>i\<close>, swap with the larger-priority child while that child is
  \<^verbatim>\<open>Less\<close> than \<open>i\<close>, inside the first \<open>n\<close> elements. (The test \<^verbatim>\<open>j1 < 0\<close> of the
  source guards against overflow of \<open>2*i + 1\<close> and cannot fire for slice indices.)
\<close>

function down :: "priorityQueue \<Rightarrow> nat \<Rightarrow> nat \<Rightarrow> priorityQueue" where
  "down h i n =
     (let j1 = 2 * i + 1
      in if j1 \<ge> n then h
         else let j = (if j1 + 1 < n \<and> pq_Less h (j1 + 1) j1 then j1 + 1 else j1)
              in if \<not> pq_Less h j i then h else down (pq_Swap h i j) j n)"
  by pat_completeness auto
termination
  by (relation "measure (\<lambda>(h, i, n). n - i)") (auto split: if_splits)

text \<open>\<^verbatim>\<open>heap.Init\<close>: \<^verbatim>\<open>n := h.Len(); for i := n/2 - 1; i >= 0; i-- { down(h, i, n) }\<close>.\<close>

definition heap_Init :: "priorityQueue \<Rightarrow> priorityQueue" where
  "heap_Init h = foldl (\<lambda>h' i. down h' i (pq_Len h)) h (rev [0 ..< pq_Len h div 2])"

text \<open>\<^verbatim>\<open>heap.Push\<close>: \<^verbatim>\<open>h.Push(x); up(h, h.Len()-1)\<close>.\<close>

definition heap_Push :: "priorityQueue \<Rightarrow> QueueItem \<Rightarrow> priorityQueue" where
  "heap_Push h x = (let h1 = pq_Push h x in up h1 (pq_Len h1 - 1))"

text \<open>
  \<^verbatim>\<open>heap.Pop\<close>: \<^verbatim>\<open>n := h.Len() - 1; h.Swap(0, n); down(h, 0, n); return h.Pop()\<close>.
  On an empty heap \<open>n = -1\<close> and \<^verbatim>\<open>Swap(0, -1)\<close> panics: \<open>None\<close>.
\<close>

definition heap_Pop :: "priorityQueue \<Rightarrow> (QueueItem \<times> priorityQueue) option" where
  "heap_Pop h =
     (if pq_Len h = 0 then None
      else let n = pq_Len h - 1;
               h1 = pq_Swap h 0 n;
               h2 = down h1 0 n
           in pq_Pop h2)"

subsection \<open>Queue\<close>

text \<open>
  \<^verbatim>\<open>type Queue struct { pq priorityQueue; mu sync.Mutex; seen map[string]bool }\<close>.
  Every method holds the mutex for its whole body, so each call is one atomic step of
  the model. Reading a missing key of a Go \<^verbatim>\<open>map[string]bool\<close> gives \<^verbatim>\<open>false\<close>.
\<close>

record Queue =
  pq :: priorityQueue
  seen :: "string \<rightharpoonup> bool"

definition seen_get :: "Queue \<Rightarrow> string \<Rightarrow> bool" where
  "seen_get q url = (case seen q url of None \<Rightarrow> False | Some b \<Rightarrow> b)"

definition NewQueue :: Queue where
  "NewQueue = \<lparr> pq = heap_Init [], seen = Map.empty \<rparr>"

definition Add :: "Queue \<Rightarrow> string \<Rightarrow> ResourceType \<Rightarrow> bool \<times> Queue" where
  "Add q url resourceType =
     (if seen_get q url then (False, q)
      else let q1 = q\<lparr> seen := (seen q)(url \<mapsto> True) \<rparr>;
               item = \<lparr> URL = url, Type = resourceType \<rparr>
           in (True, q1\<lparr> pq := heap_Push (pq q1) item \<rparr>))"

text \<open>
  \<^verbatim>\<open>if q.pq.Len() == 0 { return nil, false }; item := heap.Pop(&q.pq).(*QueueItem); return item, true\<close>.
  The result is \<open>(Some item, q')\<close> for \<^verbatim>\<open>(item, true)\<close> and \<open>(None, q)\<close> for
  \<^verbatim>\<open>(nil, false)\<close>. \<^verbatim>\<open>heap.Pop\<close> is reached with a non-empty heap only, where it does
  not panic (lemma \<open>heap_Pop_None_iff\<close>), so the last branch is never taken.
\<close>

definition Pop :: "Queue \<Rightarrow> QueueItem option \<times> Queue" where
  "Pop q =
     (if pq_Len (pq q) = 0 then (None, q)
      else case heap_Pop (pq q) of
             Some (item, h) \<Rightarrow> (Some item, q\<lparr> pq := h \<rparr>)
           | None \<Rightarrow> (None, q))"

definition IsEmpty :: "Queue \<Rightarrow> bool" where
  "IsEmpty q \<longleftrightarrow> pq_Len (pq q) = 0"

definition Len :: "Queue \<Rightarrow> nat" where
  "Len q = pq_Len (pq q)"

text \<open>A caller's sequence of operations on one queue, and the state it leads to.\<close>

datatype queue_op = OpAdd string ResourceType | OpPop

fun run_ops :: "Queue \<Rightarrow> queue_op list \<Rightarrow> Queue" where
  "run_ops q [] = q"
| "run_ops q (OpAdd url rt # ops) = run_ops (snd (Add q url rt)) ops"
| "run_ops q (OpPop # ops) = run_ops (snd (Pop q)) ops"

text \<open>Repeated \<^verbatim>\<open>Add\<close> calls for one URL, with the list of results.\<close>

fun add_same :: "Queue \<Rightarrow> string \<Rightarrow> ResourceType list \<Rightarrow> bool list \<times> Queue" where
  "add_same q url [] = ([], q)"
| "add_same q url (rt # rts) =
     (let (r, q1) = Add q url rt; (rs, q2) = add_same q1 url rts in (r # rs, q2))"

text \<open>A sequence of \<^verbatim>\<open>Add\<close> calls with no pop in between.\<close>

fun add_all :: "Queue \<Rightarrow> (string \<times> ResourceType) list \<Rightarrow> Queue" where
  "add_all q [] = q"
| "add_all q ((url, rt) # adds) = add_all (snd (Add q url rt)) adds"

subsection \<open>Heap lemmas: sift-up and sift-down restore the heap order\<close>

declare up.simps [simp del] down.simps [simp del]

lemma pq_Swap_length [simp]: "length (pq_Swap h i j) = length h"
  by (simp add: pq_Swap_def)

lemma pq_Swap_nth:
  "i < length h \<Longrightarrow> j < length h \<Longrightarrow> k < length h \<Longrightarrow>
   pq_Swap h i j ! k = (if k = j then h ! i else if k = i then h ! j else h ! k)"
  by (simp add: pq_Swap_def nth_list_update)

lemma pq_Swap_mset: "i < length h \<Longrightarrow> j < length h \<Longrightarrow> mset (pq_Swap h i j) = mset h"
  by (simp add: pq_Swap_def mset_swap)

lemma up_length [simp]: "length (up h j) = length h"
proof (induction h j rule: up.induct)
  case (1 h j)
  show ?case
    using 1 by (subst up.simps) (simp add: Let_def)
qed

lemma up_mset: "j < length h \<Longrightarrow> mset (up h j) = mset h"
proof (induction h j rule: up.induct)
  case (1 h j)
  show ?case
  proof (cases "(j - 1) div 2 = j \<or> \<not> pq_Less h j ((j - 1) div 2)")
    case True
    then show ?thesis by (subst up.simps) (simp add: Let_def)
  next
    case False
    have lt: "(j - 1) div 2 < length h" using "1.prems" by simp
    have "mset (up (pq_Swap h ((j - 1) div 2) j) ((j - 1) div 2)) = mset (pq_Swap h ((j - 1) div 2) j)"
      using False lt by (intro "1.IH") auto
    with False lt "1.prems" show ?thesis
      by (subst up.simps) (simp add: Let_def pq_Swap_mset)
  qed
qed

definition down_pick :: "priorityQueue \<Rightarrow> nat \<Rightarrow> nat \<Rightarrow> nat" where
  "down_pick h i n = (if 2 * i + 2 < n \<and> pq_Less h (2 * i + 2) (2 * i + 1) then 2 * i + 2 else 2 * i + 1)"

lemma down_unfold:
  "down h i n =
     (if 2 * i + 1 \<ge> n then h
      else if \<not> pq_Less h (down_pick h i n) i then h
      else down (pq_Swap h i (down_pick h i n)) (down_pick h i n) n)"
  by (subst down.simps) (simp add: Let_def down_pick_def)

lemma down_pick_cases: "down_pick h i n = 2 * i + 1 \<or> down_pick h i n = 2 * i + 2"
  by (simp add: down_pick_def)

lemma down_pick_bounds: "2 * i + 1 < n \<Longrightarrow> i < down_pick h i n \<and> down_pick h i n < n"
  by (simp add: down_pick_def)

lemma down_induct [case_names stop step]:
  assumes stop: "\<And>h i. 2 * i + 1 \<ge> n \<or> \<not> pq_Less h (down_pick h i n) i \<Longrightarrow> P h i"
    and step: "\<And>h i. 2 * i + 1 < n \<Longrightarrow> pq_Less h (down_pick h i n) i \<Longrightarrow>
                 P (pq_Swap h i (down_pick h i n)) (down_pick h i n) \<Longrightarrow> P h i"
  shows "P h i"
proof (induction "n - i" arbitrary: h i rule: less_induct)
  case less
  show ?case
  proof (cases "2 * i + 1 \<ge> n \<or> \<not> pq_Less h (down_pick h i n) i")
    case True
    then show ?thesis by (rule stop)
  next
    case False
    then have a: "2 * i + 1 < n" and b: "pq_Less h (down_pick h i n) i" by auto
    from down_pick_bounds [OF a, where h = h] have "n - down_pick h i n < n - i" by auto
    then have "P (pq_Swap h i (down_pick h i n)) (down_pick h i n)" by (rule less)
    with a b show ?thesis by (rule step)
  qed
qed

lemma down_length [simp]: "length (down h i n) = length h"
proof (induction h i rule: down_induct [where n = n])
  case (stop h i)
  then show ?case by (subst down_unfold) auto
next
  case (step h i)
  then show ?case by (subst down_unfold) simp
qed

lemma down_mset: "n \<le> length h \<Longrightarrow> mset (down h i n) = mset h"
proof (induction h i rule: down_induct [where n = n])
  case (stop h i)
  then show ?case by (subst down_unfold) auto
next
  case (step h i)
  from down_pick_bounds [OF step.hyps(1), where h = h] step.prems
  have "i < length h" "down_pick h i n < length h" by auto
  then have "mset (pq_Swap h i (down_pick h i n)) = mset h" by (rule pq_Swap_mset)
  with step show ?case by (subst down_unfold) simp
qed

lemma down_nth_beyond: "n \<le> length h \<Longrightarrow> n \<le> m \<Longrightarrow> m < length h \<Longrightarrow> down h i n ! m = h ! m"
proof (induction h i rule: down_induct [where n = n])
  case (stop h i)
  then show ?case by (subst down_unfold) auto
next
  case (step h i)
  from down_pick_bounds [OF step.hyps(1), where h = h] step.prems
  have b: "i < length h" "down_pick h i n < length h" "m \<noteq> i" "m \<noteq> down_pick h i n" by auto
  with step.prems have "pq_Swap h i (down_pick h i n) ! m = h ! m"
    by (simp add: pq_Swap_nth)
  with step show ?case by (subst down_unfold) simp
qed


definition is_heap :: "priorityQueue \<Rightarrow> nat \<Rightarrow> bool" where
  "is_heap h n \<longleftrightarrow> (\<forall>k. 0 < k \<and> k < n \<longrightarrow> Weight (h ! k) \<le> Weight (h ! ((k - 1) div 2)))"

definition heap_except_up :: "priorityQueue \<Rightarrow> nat \<Rightarrow> nat \<Rightarrow> bool" where
  "heap_except_up h n j \<longleftrightarrow>
     (\<forall>k. 0 < k \<and> k < n \<and> k \<noteq> j \<longrightarrow> Weight (h ! k) \<le> Weight (h ! ((k - 1) div 2))) \<and>
     (\<forall>k. 0 < k \<and> k < n \<and> (k - 1) div 2 = j \<and> 0 < j \<longrightarrow>
          Weight (h ! k) \<le> Weight (h ! ((j - 1) div 2)))"

definition heap_except_down :: "priorityQueue \<Rightarrow> nat \<Rightarrow> nat \<Rightarrow> bool" where
  "heap_except_down h n i \<longleftrightarrow>
     (\<forall>k. 0 < k \<and> k < n \<and> (k - 1) div 2 \<noteq> i \<longrightarrow> Weight (h ! k) \<le> Weight (h ! ((k - 1) div 2))) \<and>
     (\<forall>k. 0 < k \<and> k < n \<and> (k - 1) div 2 = i \<and> 0 < i \<longrightarrow>
          Weight (h ! k) \<le> Weight (h ! ((i - 1) div 2)))"

lemma parent_less: "0 < k \<Longrightarrow> (k - 1) div 2 < (k::nat)"
  by simp

lemma parent_eq_iff: "0 < k \<Longrightarrow> (k - 1) div 2 = i \<longleftrightarrow> k = 2 * i + 1 \<or> k = 2 * i + (2::nat)"
  by presburger

lemma up_step_inv:
  assumes inv: "heap_except_up h n j" and n: "n = length h" and j: "j < n"
    and ij: "(j - 1) div 2 \<noteq> j" and less: "pq_Less h j ((j - 1) div 2)"
  shows "heap_except_up (pq_Swap h ((j - 1) div 2) j) n ((j - 1) div 2)"
proof -
  note One_nat_def [simp del]
  let ?i = "(j - 1) div 2"
  let ?h = "pq_Swap h ?i j"
  from ij have j0: "0 < j" by (cases j) auto
  then have i_lt: "?i < j" by simp
  with j n have il: "?i < length h" and jl: "j < length h" by auto
  from less have w: "Weight (h ! ?i) < Weight (h ! j)" by (simp add: pq_Less_def)
  have nth: "\<And>k. k < n \<Longrightarrow> ?h ! k = (if k = j then h ! ?i else if k = ?i then h ! j else h ! k)"
    using il jl n by (simp add: pq_Swap_nth)
  from inv have p1: "\<And>k. 0 < k \<Longrightarrow> k < n \<Longrightarrow> k \<noteq> j \<Longrightarrow> Weight (h ! k) \<le> Weight (h ! ((k - 1) div 2))"
    and p2: "\<And>k. 0 < k \<Longrightarrow> k < n \<Longrightarrow> (k - 1) div 2 = j \<Longrightarrow> Weight (h ! k) \<le> Weight (h ! ?i)"
    using j0 by (auto simp: heap_except_up_def)
  have a: "Weight (?h ! k) \<le> Weight (?h ! ((k - 1) div 2))" if k: "0 < k" "k < n" "k \<noteq> ?i" for k
  proof -
    let ?p = "(k - 1) div 2"
    from k have pk: "?p < k" by simp
    with k have pn: "?p < n" by simp
    show ?thesis
    proof (cases "k = j")
      case True
      with w k pn show ?thesis by (simp add: nth)
    next
      case kj: False
      then have hk: "?h ! k = h ! k" using k by (simp add: nth)
      consider "?p = ?i" | "?p = j" | "?p \<noteq> ?i" "?p \<noteq> j" by blast
      then show ?thesis
      proof cases
        case 1
        have "Weight (h ! k) \<le> Weight (h ! ?i)" using p1 [OF k(1) k(2) kj] 1 by simp
        with w have "Weight (h ! k) \<le> Weight (h ! j)" by simp
        moreover have "?h ! ?p = h ! j" using 1 pn i_lt by (simp add: nth)
        ultimately show ?thesis using hk by simp
      next
        case 2
        have "Weight (h ! k) \<le> Weight (h ! ?i)" using p2 [OF k(1) k(2) 2] .
        moreover have "?h ! ?p = h ! ?i" using 2 pn by (simp add: nth)
        ultimately show ?thesis using hk by simp
      next
        case 3
        then have "?h ! ?p = h ! ?p" using pn by (simp add: nth)
        with p1 [OF k(1) k(2) kj] hk show ?thesis by simp
      qed
    qed
  qed
  have b: "Weight (?h ! k) \<le> Weight (?h ! ((?i - 1) div 2))"
    if k: "0 < k" "k < n" "(k - 1) div 2 = ?i" "0 < ?i" for k
  proof -
    let ?g = "(?i - 1) div 2"
    from k(4) have gi: "?g < ?i" by simp
    with i_lt j have gn: "?g < n" "?g \<noteq> j" "?g \<noteq> ?i" by auto
    then have hg: "?h ! ?g = h ! ?g" by (simp add: nth)
    have ii: "Weight (h ! ?i) \<le> Weight (h ! ?g)"
      using p1 [of ?i] k(4) i_lt j by simp
    show ?thesis
    proof (cases "k = j")
      case True
      with ii hg k show ?thesis by (simp add: nth)
    next
      case kj: False
      from k have "k \<noteq> ?i" by (metis parent_less less_irrefl)
      with kj k have "?h ! k = h ! k" by (simp add: nth)
      moreover have "Weight (h ! k) \<le> Weight (h ! ?i)" using p1 [OF k(1) k(2) kj] k(3) by simp
      ultimately show ?thesis using ii hg by simp
    qed
  qed
  from a b show ?thesis unfolding heap_except_up_def by blast
qed

lemma up_heap:
  "heap_except_up h n j \<Longrightarrow> n = length h \<Longrightarrow> j < n \<Longrightarrow> is_heap (up h j) n"
proof (induction h j rule: up.induct)
  case (1 h j)
  note One_nat_def [simp del]
  let ?i = "(j - 1) div 2"
  show ?case
  proof (cases "?i = j \<or> \<not> pq_Less h j ?i")
    case True
    have "is_heap h n"
      unfolding is_heap_def
    proof (intro allI impI)
      fix k assume k: "0 < k \<and> k < n"
      show "Weight (h ! k) \<le> Weight (h ! ((k - 1) div 2))"
      proof (cases "k = j")
        case kj: True
        with k have "?i \<noteq> j" by (metis parent_less less_irrefl)
        with True have "\<not> pq_Less h j ?i" by simp
        with kj show ?thesis by (simp add: pq_Less_def)
      next
        case False
        with k "1.prems"(1) show ?thesis by (simp add: heap_except_up_def)
      qed
    qed
    with True show ?thesis by (subst up.simps) (simp add: Let_def)
  next
    case False
    then have ij: "?i \<noteq> j" and less: "pq_Less h j ?i" by auto
    from ij have "0 < j" by (cases j) auto
    then have ilt: "?i < n" using "1.prems"(3) by simp
    have "heap_except_up (pq_Swap h ?i j) n ?i"
      using "1.prems" ij less by (intro up_step_inv)
    then have "is_heap (up (pq_Swap h ?i j) ?i) n"
      using False "1.prems"(2) ilt by (intro "1.IH") auto
    with False show ?thesis by (subst up.simps) (simp add: Let_def)
  qed
qed


lemma down_pick_best:
  assumes "2 * i + 1 < n" "0 < k" "k < n" "(k - 1) div 2 = i"
  shows "Weight (h ! k) \<le> Weight (h ! down_pick h i n)"
proof -
  from assms(2,4) have "k = 2 * i + 1 \<or> k = 2 * i + 2" by presburger
  with assms(3) show ?thesis
    by (auto simp: down_pick_def pq_Less_def)
qed

lemma down_step_inv:
  assumes inv: "heap_except_down h n i" and n: "n \<le> length h"
    and c: "2 * i + 1 < n" and less: "pq_Less h (down_pick h i n) i"
  shows "heap_except_down (pq_Swap h i (down_pick h i n)) n (down_pick h i n)"
proof -
  note One_nat_def [simp del]
  let ?j = "down_pick h i n"
  let ?h = "pq_Swap h i ?j"
  from down_pick_bounds [OF c, where h = h] have ij: "i < ?j" and jn: "?j < n" by auto
  have pj: "(?j - 1) div 2 = i" using down_pick_cases [of h i n] by auto
  from ij jn n have il: "i < length h" and jl: "?j < length h" by auto
  from less have w: "Weight (h ! i) < Weight (h ! ?j)" by (simp add: pq_Less_def)
  have nth: "\<And>k. k < n \<Longrightarrow> ?h ! k = (if k = ?j then h ! i else if k = i then h ! ?j else h ! k)"
    using il jl n by (simp add: pq_Swap_nth)
  from inv have p1: "\<And>k. 0 < k \<Longrightarrow> k < n \<Longrightarrow> (k - 1) div 2 \<noteq> i \<Longrightarrow>
        Weight (h ! k) \<le> Weight (h ! ((k - 1) div 2))"
    and p2: "\<And>k. 0 < k \<Longrightarrow> k < n \<Longrightarrow> (k - 1) div 2 = i \<Longrightarrow> 0 < i \<Longrightarrow>
        Weight (h ! k) \<le> Weight (h ! ((i - 1) div 2))"
    by (auto simp: heap_except_down_def)
  have a: "Weight (?h ! k) \<le> Weight (?h ! ((k - 1) div 2))"
    if k: "0 < k" "k < n" "(k - 1) div 2 \<noteq> ?j" for k
  proof -
    let ?p = "(k - 1) div 2"
    from k have pk: "?p < k" by simp
    with k have pn: "?p < n" by simp
    show ?thesis
    proof (cases "?p = i")
      case pi: True
      have hp: "?h ! ?p = h ! ?j" using pi pn ij by (simp add: nth)
      show ?thesis
      proof (cases "k = ?j")
        case True
        then have "?h ! k = h ! i" using k by (simp add: nth)
        with hp w pi show ?thesis by simp
      next
        case False
        moreover from pi pk have "k \<noteq> i" by simp
        ultimately have "?h ! k = h ! k" using k by (simp add: nth)
        moreover have "Weight (h ! k) \<le> Weight (h ! ?j)"
          using down_pick_best [OF c k(1) k(2) pi] .
        ultimately show ?thesis using hp by simp
      qed
    next
      case pi: False
      with k(3) pn have hp: "?h ! ?p = h ! ?p" by (simp add: nth)
      from pi pj have kj: "k \<noteq> ?j" by auto
      show ?thesis
      proof (cases "k = i")
        case True
        then have "?h ! k = h ! ?j" using k ij by (simp add: nth)
        moreover have "Weight (h ! ?j) \<le> Weight (h ! ((i - 1) div 2))"
          using p2 [OF _ jn pj] ij k(1) True by simp
        ultimately show ?thesis using hp True by simp
      next
        case False
        with kj k have "?h ! k = h ! k" by (simp add: nth)
        with p1 [OF k(1) k(2) pi] hp show ?thesis by simp
      qed
    qed
  qed
  have b: "Weight (?h ! k) \<le> Weight (?h ! ((?j - 1) div 2))"
    if k: "0 < k" "k < n" "(k - 1) div 2 = ?j" for k
  proof -
    from k have jk: "?j < k" by (metis parent_less)
    with ij have "k \<noteq> i" "k \<noteq> ?j" by auto
    with k have "?h ! k = h ! k" by (simp add: nth)
    moreover have "?h ! ((?j - 1) div 2) = h ! ?j" using pj ij jn by (simp add: nth)
    moreover have "Weight (h ! k) \<le> Weight (h ! ?j)"
      using p1 [OF k(1) k(2)] k(3) ij by simp
    ultimately show ?thesis by simp
  qed
  from a b show ?thesis unfolding heap_except_down_def by blast
qed

lemma down_heap:
  "heap_except_down h n i \<Longrightarrow> n \<le> length h \<Longrightarrow> is_heap (down h i n) n"
proof (induction h i rule: down_induct [where n = n])
  case (stop h i)
  note One_nat_def [simp del]
  have "is_heap h n"
    unfolding is_heap_def
  proof (intro allI impI)
    fix k assume k: "0 < k \<and> k < n"
    show "Weight (h ! k) \<le> Weight (h ! ((k - 1) div 2))"
    proof (cases "(k - 1) div 2 = i")
      case True
      with k have "k = 2 * i + 1 \<or> k = 2 * i + 2" by presburger
      with k have c: "2 * i + 1 < n" by auto
      with stop.hyps have "\<not> pq_Less h (down_pick h i n) i" by auto
      then have "Weight (h ! down_pick h i n) \<le> Weight (h ! i)" by (simp add: pq_Less_def)
      moreover have "Weight (h ! k) \<le> Weight (h ! down_pick h i n)"
        using down_pick_best [OF c _ _ True] k by simp
      ultimately show ?thesis using True by simp
    next
      case False
      with k stop.prems(1) show ?thesis by (simp add: heap_except_down_def)
    qed
  qed
  with stop.hyps show ?case by (subst down_unfold) auto
next
  case (step h i)
  have "heap_except_down (pq_Swap h i (down_pick h i n)) n (down_pick h i n)"
    using step.prems step.hyps by (intro down_step_inv)
  then have "is_heap (down (pq_Swap h i (down_pick h i n)) (down_pick h i n) n) n"
    using step.prems by (intro step.IH) simp_all
  with step.hyps show ?case by (subst down_unfold) simp
qed

lemma is_heap_root_max: "is_heap h n \<Longrightarrow> k < n \<Longrightarrow> Weight (h ! k) \<le> Weight (h ! 0)"
proof (induction k rule: less_induct)
  case (less k)
  show ?case
  proof (cases "k = 0")
    case True
    then show ?thesis by simp
  next
    case False
    then have k0: "0 < k" by simp
    then have pk: "(k - 1) div 2 < k" by simp
    have "Weight (h ! k) \<le> Weight (h ! ((k - 1) div 2))"
      using less.prems k0 by (simp add: is_heap_def)
    also have "\<dots> \<le> Weight (h ! 0)"
      using less.IH [OF pk less.prems(1)] pk less.prems(2) by simp
    finally show ?thesis .
  qed
qed


lemma heap_Push_length [simp]: "length (heap_Push h x) = Suc (length h)"
  by (simp add: heap_Push_def pq_Push_def Let_def)

lemma heap_Push_mset: "mset (heap_Push h x) = add_mset x (mset h)"
  by (simp add: heap_Push_def pq_Push_def pq_Len_def Let_def up_mset)

lemma heap_Push_heap:
  assumes "is_heap h (length h)"
  shows "is_heap (heap_Push h x) (Suc (length h))"
proof -
  let ?h1 = "h @ [x]"
  have "heap_except_up ?h1 (length ?h1) (length h)"
    unfolding heap_except_up_def
  proof (intro conjI allI impI)
    fix k assume k: "0 < k \<and> k < length ?h1 \<and> k \<noteq> length h"
    then have kl: "k < length h" by simp
    with k have "(k - 1) div 2 < length h" by simp
    with kl assms k show "Weight (?h1 ! k) \<le> Weight (?h1 ! ((k - 1) div 2))"
      by (simp add: nth_append is_heap_def)
  next
    fix k assume k: "0 < k \<and> k < length ?h1 \<and> (k - 1) div 2 = length h \<and> 0 < length h"
    then have "k = 2 * length h + 1 \<or> k = 2 * length h + 2" by presburger
    with k have False by auto
    then show "Weight (?h1 ! k) \<le> Weight (?h1 ! ((length h - 1) div 2))" ..
  qed
  then have "is_heap (up ?h1 (length h)) (length ?h1)"
    by (rule up_heap) simp_all
  then show ?thesis
    by (simp add: heap_Push_def pq_Push_def pq_Len_def Let_def)
qed

lemma pq_Swap_eq_Nil [simp]: "pq_Swap h i j = [] \<longleftrightarrow> h = []"
  by (simp add: pq_Swap_def)

lemma down_eq_Nil [simp]: "down h i n = [] \<longleftrightarrow> h = []"
  by (metis down_length length_0_conv)

lemma heap_Pop_None_iff: "heap_Pop h = None \<longleftrightarrow> h = []"
  by (auto simp add: heap_Pop_def pq_Pop_def pq_Len_def Let_def)

lemma heap_Pop_Some:
  assumes ne: "h \<noteq> []"
  shows "\<exists>h'. heap_Pop h = Some (h ! 0, h') \<and> length h' = length h - 1
            \<and> mset h = add_mset (h ! 0) (mset h')
            \<and> (is_heap h (length h) \<longrightarrow> is_heap h' (length h'))"
proof -
  let ?n = "length h - 1"
  let ?h1 = "pq_Swap h 0 ?n"
  let ?h2 = "down ?h1 0 ?n"
  from ne have n: "?n < length h" by (cases h) auto
  from ne have l0: "0 < length h" by simp
  have len2: "length ?h2 = length h" by simp
  have ne2: "?h2 \<noteq> []" using ne by simp
  have pop: "heap_Pop h = Some (last ?h2, butlast ?h2)"
    using ne ne2 by (simp add: heap_Pop_def pq_Pop_def pq_Len_def Let_def)
  have "last ?h2 = ?h2 ! ?n" using ne2 len2 by (simp add: last_conv_nth)
  also have "\<dots> = ?h1 ! ?n" using n by (intro down_nth_beyond) simp_all
  also have "\<dots> = h ! 0" using n l0 by (simp add: pq_Swap_nth)
  finally have last: "last ?h2 = h ! 0" .
  have "mset ?h2 = mset h"
    using n l0 by (simp add: down_mset pq_Swap_mset)
  moreover have "mset ?h2 = add_mset (last ?h2) (mset (butlast ?h2))"
    using ne2 by (metis append_butlast_last_id mset.simps(2) mset_append union_mset_add_mset_right add.right_neutral mset.simps(1))
  ultimately have ms: "mset h = add_mset (h ! 0) (mset (butlast ?h2))"
    using last by simp
  have hp: "is_heap (butlast ?h2) (length (butlast ?h2))" if hh: "is_heap h (length h)"
  proof -
    have "heap_except_down ?h1 ?n 0"
      unfolding heap_except_down_def
    proof (intro conjI allI impI)
      fix k assume k: "0 < k \<and> k < ?n \<and> (k - 1) div 2 \<noteq> 0"
      then have p: "(k - 1) div 2 < k" by auto
      from k p have kl: "k < length h" "(k - 1) div 2 < length h" by auto
      from k p have "k \<noteq> 0" "k \<noteq> ?n" "(k - 1) div 2 \<noteq> 0" "(k - 1) div 2 \<noteq> ?n" by auto
      then have "?h1 ! k = h ! k" "?h1 ! ((k - 1) div 2) = h ! ((k - 1) div 2)"
        using pq_Swap_nth [OF l0 n kl(1)] pq_Swap_nth [OF l0 n kl(2)] by auto
      moreover have "Weight (h ! k) \<le> Weight (h ! ((k - 1) div 2))"
        using hh k kl(1) unfolding is_heap_def by blast
      ultimately show "Weight (?h1 ! k) \<le> Weight (?h1 ! ((k - 1) div 2))" by simp
    next
      fix k assume "0 < k \<and> k < ?n \<and> (k - 1) div 2 = 0 \<and> (0::nat) < 0"
      then show "Weight (?h1 ! k) \<le> Weight (?h1 ! ((0 - 1) div 2))" by simp
    qed
    then have h2: "is_heap ?h2 ?n" by (rule down_heap) simp
    show ?thesis
      unfolding is_heap_def
    proof (intro allI impI)
      fix k assume k: "0 < k \<and> k < length (butlast ?h2)"
      then have kn: "k < ?n" by simp
      then have "(k - 1) div 2 < ?n" by simp
      with kn have "butlast ?h2 ! k = ?h2 ! k" "butlast ?h2 ! ((k - 1) div 2) = ?h2 ! ((k - 1) div 2)"
        by (simp_all add: nth_butlast)
      with h2 k kn show "Weight (butlast ?h2 ! k) \<le> Weight (butlast ?h2 ! ((k - 1) div 2))"
        by (simp add: is_heap_def)
    qed
  qed
  show ?thesis
    using pop last ms hp by (intro exI [of _ "butlast ?h2"]) simp
qed

subsection \<open>Queue lemmas\<close>

definition queue_inv :: "Queue \<Rightarrow> bool" where
  "queue_inv q \<longleftrightarrow> is_heap (pq q) (length (pq q))"

lemma Pop_empty: "pq q = [] \<Longrightarrow> Pop q = (None, q)"
  by (simp add: Pop_def pq_Len_def)

lemma Pop_nonempty:
  assumes "pq q \<noteq> []"
  shows "\<exists>h'. Pop q = (Some (pq q ! 0), q\<lparr>pq := h'\<rparr>) \<and> length h' = length (pq q) - 1
            \<and> mset (pq q) = add_mset (pq q ! 0) (mset h')
            \<and> (queue_inv q \<longrightarrow> is_heap h' (length h'))"
proof -
  from heap_Pop_Some [OF assms] obtain h' where
    h: "heap_Pop (pq q) = Some (pq q ! 0, h')" "length h' = length (pq q) - 1"
       "mset (pq q) = add_mset (pq q ! 0) (mset h')"
       "is_heap (pq q) (length (pq q)) \<longrightarrow> is_heap h' (length h')"
    by blast
  with assms show ?thesis
    by (intro exI [of _ h']) (simp add: Pop_def pq_Len_def queue_inv_def)
qed

lemma Pop_Some_length:
  "Pop q = (Some item, q') \<Longrightarrow> length (pq q') < length (pq q)"
proof -
  assume p: "Pop q = (Some item, q')"
  then have ne: "pq q \<noteq> []" using Pop_empty [of q] by auto
  from Pop_nonempty [OF ne] p ne show ?thesis by (cases "pq q") auto
qed

text \<open>
  The caller's loop \<^verbatim>\<open>for { item, ok := q.Pop(); if !ok { break }; ... }\<close>: pop until
  \<^verbatim>\<open>found = false\<close>, collecting the items in the order they come out. Every successful
  pop shortens the slice, so the loop ends.
\<close>

function popAll :: "Queue \<Rightarrow> QueueItem list \<times> Queue" where
  "popAll q =
     (case Pop q of
        (None, q') \<Rightarrow> ([], q')
      | (Some item, q') \<Rightarrow> (let (items, q'') = popAll q' in (item # items, q'')))"
  by pat_completeness auto
termination
  by (relation "measure (\<lambda>q. length (pq q))") (auto dest: Pop_Some_length [OF sym])

declare popAll.simps [simp del]

lemma queue_inv_New: "queue_inv NewQueue"
  by (simp add: queue_inv_def NewQueue_def heap_Init_def pq_Len_def is_heap_def)

lemma pq_NewQueue [simp]: "pq NewQueue = []"
  by (simp add: NewQueue_def heap_Init_def pq_Len_def)

lemma seen_NewQueue [simp]: "seen_get NewQueue u = False"
  by (simp add: NewQueue_def seen_get_def)

lemma Add_seen: "seen_get q u \<Longrightarrow> Add q u t = (False, q)"
  by (simp add: Add_def)

lemma Add_unseen:
  "\<not> seen_get q u \<Longrightarrow>
     Add q u t = (True, q\<lparr> seen := (seen q)(u \<mapsto> True), pq := heap_Push (pq q) \<lparr> URL = u, Type = t \<rparr> \<rparr>)"
  by (simp add: Add_def Let_def)

lemma seen_get_Add: "seen_get (snd (Add q v t)) u \<longleftrightarrow> seen_get q u \<or> u = v"
  by (cases "seen_get q v") (auto simp: Add_seen Add_unseen seen_get_def)

lemma seen_Pop [simp]: "seen (snd (Pop q)) = seen q"
  by (auto simp: Pop_def split: option.splits)

lemma seen_get_Pop [simp]: "seen_get (snd (Pop q)) u = seen_get q u"
  by (simp add: seen_get_def)

lemma seen_get_run_ops: "seen_get q u \<Longrightarrow> seen_get (run_ops q ops) u"
  by (induction q ops rule: run_ops.induct) (simp_all add: seen_get_Add)

lemma unseen_run_ops:
  "\<not> seen_get q u \<Longrightarrow> \<forall>t. OpAdd u t \<notin> set ops \<Longrightarrow> \<not> seen_get (run_ops q ops) u"
  by (induction q ops rule: run_ops.induct) (auto simp add: seen_get_Add)

lemma queue_inv_Add: "queue_inv q \<Longrightarrow> queue_inv (snd (Add q u t))"
  by (cases "seen_get q u") (simp_all add: Add_seen Add_unseen queue_inv_def heap_Push_heap)

lemma queue_inv_Pop: "queue_inv q \<Longrightarrow> queue_inv (snd (Pop q))"
proof (cases "pq q = []")
  case True
  assume "queue_inv q"
  with True show ?thesis by (simp add: Pop_empty)
next
  case False
  assume "queue_inv q"
  with Pop_nonempty [OF False] show ?thesis by (auto simp: queue_inv_def)
qed

lemma add_same_seen:
  "seen_get q u \<Longrightarrow> add_same q u rts = (replicate (length rts) False, q)"
  by (induction rts) (simp_all add: Add_seen)

lemma add_same_unseen:
  "\<not> seen_get q u \<Longrightarrow>
     add_same q u (rt # rts) = (True # replicate (length rts) False, snd (Add q u rt))"
proof -
  assume a: "\<not> seen_get q u"
  then have "seen_get (snd (Add q u rt)) u" by (simp add: seen_get_Add)
  from add_same_seen [OF this, of rts] a show ?thesis
    by (simp add: Add_unseen)
qed


lemma popAll_sorted:
  "queue_inv q \<Longrightarrow>
     mset (fst (popAll q)) = mset (pq q)
   \<and> sorted_wrt (\<lambda>a b. Weight a \<ge> Weight b) (fst (popAll q))
   \<and> pq (snd (popAll q)) = []"
proof (induction q rule: popAll.induct)
  case (1 q)
  show ?case
  proof (cases "pq q = []")
    case True
    then show ?thesis
      by (subst (1 2 3) popAll.simps) (simp add: Pop_empty)
  next
    case False
    from Pop_nonempty [OF False] "1.prems" obtain h' where
      p: "Pop q = (Some (pq q ! 0), q\<lparr>pq := h'\<rparr>)"
      and ms: "mset (pq q) = add_mset (pq q ! 0) (mset h')"
      and hp: "is_heap h' (length h')"
      by blast
    let ?q' = "q\<lparr>pq := h'\<rparr>"
    have inv': "queue_inv ?q'" using hp by (simp add: queue_inv_def)
    have ih: "mset (fst (popAll ?q')) = mset (pq ?q')
        \<and> sorted_wrt (\<lambda>a b. Weight a \<ge> Weight b) (fst (popAll ?q'))
        \<and> pq (snd (popAll ?q')) = []"
      by (rule "1.IH" [OF p [symmetric] refl inv'])
    have unf: "popAll q = (pq q ! 0 # fst (popAll ?q'), snd (popAll ?q'))"
      by (subst popAll.simps) (simp add: p split: prod.splits)
    have root: "Weight x \<le> Weight (pq q ! 0)" if "x \<in> set (pq q)" for x
    proof -
      from that obtain k where "k < length (pq q)" "pq q ! k = x"
        by (auto simp: in_set_conv_nth)
      with is_heap_root_max [of "pq q" "length (pq q)" k] "1.prems" show ?thesis
        by (simp add: queue_inv_def)
    qed
    have "set (fst (popAll ?q')) = set h'"
      using ih by (metis mset_eq_setD select_convs(1) surjective update_convs(1))
    also have "\<dots> \<subseteq> set (pq q)"
      using ms by (metis set_mset_mset set_mset_add_mset_insert subset_insertI)
    finally have "\<forall>x \<in> set (fst (popAll ?q')). Weight x \<le> Weight (pq q ! 0)"
      using root by blast
    with ih ms show ?thesis
      by (simp add: unf)
  qed
qed

lemma sorted_wrt_strict:
  "sorted_wrt (\<lambda>a b. f a \<ge> (f b :: int)) xs \<Longrightarrow> distinct (map f xs) \<Longrightarrow>
     sorted_wrt (\<lambda>a b. f a > f b) xs"
proof (induction xs)
  case Nil
  show ?case by simp
next
  case (Cons a xs)
  have "f x < f a" if "x \<in> set xs" for x
  proof -
    from Cons.prems(1) that have "f x \<le> f a" by simp
    moreover have "f x \<noteq> f a"
    proof
      assume "f x = f a"
      with that have "f a \<in> f ` set xs" by (metis imageI)
      with Cons.prems(2) show False by simp
    qed
    ultimately show ?thesis by simp
  qed
  with Cons show ?case by simp
qed

lemma add_all_mset:
  "queue_inv q \<Longrightarrow> distinct (map fst adds) \<Longrightarrow> \<forall>u \<in> fst ` set adds. \<not> seen_get q u \<Longrightarrow>
     queue_inv (add_all q adds)
   \<and> mset (pq (add_all q adds)) = mset (pq q) + mset (map (\<lambda>(u, t). \<lparr> URL = u, Type = t \<rparr>) adds)"
proof (induction q adds rule: add_all.induct)
  case (1 q)
  then show ?case by simp
next
  case (2 q url rt adds)
  let ?q1 = "snd (Add q url rt)"
  from "2.prems" have un: "\<not> seen_get q url" by simp
  have inv1: "queue_inv ?q1" using "2.prems"(1) by (rule queue_inv_Add)
  have d: "distinct (map fst adds)" using "2.prems"(2) by simp
  have s: "\<forall>u \<in> fst ` set adds. \<not> seen_get ?q1 u"
    using "2.prems"(2,3) by (auto simp: seen_get_Add)
  from "2.IH" [OF inv1 d s] un show ?case
    by (simp add: Add_unseen heap_Push_mset)
qed

text \<open>
  C8. Items with pairwise different URLs are added to a new queue with no pop in between.
  Popping until found = false then yields exactly the added items (as a multiset), in
  non-increasing weight order; if the weights of the added items are pairwise different
  (such as 10, 25, 50, 75, 100 in any insertion order) the order is strictly descending;
  and Pop on the emptied queue returns (nil, false) and leaves it unchanged.
\<close>

theorem C8_frontier_pops_in_priority_order:
  assumes "distinct (map fst adds)"
  shows "mset (fst (popAll (add_all NewQueue adds)))
           = mset (map (\<lambda>(u, t). \<lparr> URL = u, Type = t \<rparr>) adds)
       \<and> sorted_wrt (\<lambda>a b. Weight a \<ge> Weight b) (fst (popAll (add_all NewQueue adds)))
       \<and> (distinct (map (\<lambda>(u, t). GetWeight t) adds) \<longrightarrow>
            sorted_wrt (\<lambda>a b. Weight a > Weight b) (fst (popAll (add_all NewQueue adds))))
       \<and> Pop (snd (popAll (add_all NewQueue adds))) = (None, snd (popAll (add_all NewQueue adds)))"
proof -
  let ?q = "add_all NewQueue adds"
  let ?mk = "\<lambda>(u, t). \<lparr> URL = u, Type = t \<rparr>"
  have a: "queue_inv ?q \<and> mset (pq ?q) = mset (pq NewQueue) + mset (map ?mk adds)"
    using assms by (intro add_all_mset queue_inv_New) simp_all
  from popAll_sorted [of ?q] a
  have p: "mset (fst (popAll ?q)) = mset (pq ?q)"
    "sorted_wrt (\<lambda>a b. Weight a \<ge> Weight b) (fst (popAll ?q))"
    "pq (snd (popAll ?q)) = []" by simp_all
  have m: "mset (fst (popAll ?q)) = mset (map ?mk adds)" using p(1) a by simp
  have strict: "sorted_wrt (\<lambda>a b. Weight a > Weight b) (fst (popAll ?q))"
    if dw: "distinct (map (\<lambda>(u, t). GetWeight t) adds)"
  proof -
    have eq: "map Weight (map ?mk adds) = map (\<lambda>(u, t). GetWeight t) adds"
      by (auto simp: Weight_def)
    have "distinct (map Weight (map ?mk adds))" by (subst eq) (rule dw)
    moreover have "mset (map Weight (fst (popAll ?q))) = mset (map Weight (map ?mk adds))"
      using m by (metis mset_map)
    ultimately have "distinct (map Weight (fst (popAll ?q)))"
      by (metis mset_eq_imp_distinct_iff)
    with p(2) show ?thesis by (rule sorted_wrt_strict)
  qed
  from m p(2) strict Pop_empty [OF p(3)] show ?thesis by blast
qed


theorem C8_frontier_pops_in_priority_order_witness:
  "distinct (map fst [(''i.png'', ResourceImage), (''p.html'', ResourceHTML), (''s.js'', ResourceJS)])
   \<and> mset (fst (popAll (add_all NewQueue
          [(''i.png'', ResourceImage), (''p.html'', ResourceHTML), (''s.js'', ResourceJS)])))
       = {# \<lparr> URL = ''i.png'', Type = ResourceImage \<rparr>, \<lparr> URL = ''p.html'', Type = ResourceHTML \<rparr>,
            \<lparr> URL = ''s.js'', Type = ResourceJS \<rparr> #}
   \<and> sorted_wrt (\<lambda>a b. Weight a \<ge> Weight b) (fst (popAll (add_all NewQueue
          [(''i.png'', ResourceImage), (''p.html'', ResourceHTML), (''s.js'', ResourceJS)])))"
proof -
  have d: "distinct (map fst [(''i.png'', ResourceImage), (''p.html'', ResourceHTML), (''s.js'', ResourceJS)])"
    by simp
  from C8_frontier_pops_in_priority_order [OF d] d show ?thesis
    by simp
qed

lemma count_list_replicate_False: "count_list (replicate n False) True = 0"
  by (induction n) simp_all

text \<open>
  C1. Let the queue be in any state reached from a new queue by operations that never
  added URL u. The first Add(u, t) returns true and enqueues exactly one item (length
  plus one, contents plus that item). After it, and after any further sequence of adds and
  pops (for any URLs, also popping the item of u), Add(u, t') returns false and leaves
  the queue unchanged. Any non-empty series of Add calls for u gives exactly one true
  and grows the queue by exactly one.
\<close>

theorem C1_frontier_dedup_permanent:
  assumes "\<forall>t. OpAdd u t \<notin> set before"
  shows "fst (Add (run_ops NewQueue before) u t) = True
       \<and> Len (snd (Add (run_ops NewQueue before) u t)) = Len (run_ops NewQueue before) + 1
       \<and> mset (pq (snd (Add (run_ops NewQueue before) u t)))
           = add_mset \<lparr> URL = u, Type = t \<rparr> (mset (pq (run_ops NewQueue before)))
       \<and> Add (run_ops (snd (Add (run_ops NewQueue before) u t)) later) u t'
           = (False, run_ops (snd (Add (run_ops NewQueue before) u t)) later)
       \<and> (rts \<noteq> [] \<longrightarrow>
            count_list (fst (add_same (run_ops NewQueue before) u rts)) True = 1
          \<and> Len (snd (add_same (run_ops NewQueue before) u rts)) = Len (run_ops NewQueue before) + 1)"
proof -
  let ?q0 = "run_ops NewQueue before"
  let ?q1 = "snd (Add ?q0 u t)"
  have un: "\<not> seen_get ?q0 u"
    using assms by (intro unseen_run_ops) simp_all
  have a: "fst (Add ?q0 u t) = True" using un by (simp add: Add_unseen)
  have b: "Len ?q1 = Len ?q0 + 1" using un by (simp add: Add_unseen Len_def pq_Len_def)
  have c: "mset (pq ?q1) = add_mset \<lparr> URL = u, Type = t \<rparr> (mset (pq ?q0))"
    using un by (simp add: Add_unseen heap_Push_mset)
  have "seen_get ?q1 u" by (simp add: seen_get_Add)
  then have "seen_get (run_ops ?q1 later) u" by (rule seen_get_run_ops)
  then have d: "Add (run_ops ?q1 later) u t' = (False, run_ops ?q1 later)" by (rule Add_seen)
  have e: "count_list (fst (add_same ?q0 u rts)) True = 1
      \<and> Len (snd (add_same ?q0 u rts)) = Len ?q0 + 1" if "rts \<noteq> []"
  proof -
    from that obtain rt rts' where r: "rts = rt # rts'" by (cases rts) auto
    have eq: "add_same ?q0 u (rt # rts') = (True # replicate (length rts') False, snd (Add ?q0 u rt))"
      using un by (rule add_same_unseen)
    show ?thesis
      unfolding r eq using un
      by (simp add: count_list_replicate_False Add_unseen Len_def pq_Len_def)
  qed
  from a b c d e show ?thesis by blast
qed

theorem C1_frontier_dedup_permanent_witness:
  "(\<forall>t. OpAdd ''a'' t \<notin> set [OpAdd ''b'' ResourceCSS, OpPop])
   \<and> fst (Add (run_ops NewQueue [OpAdd ''b'' ResourceCSS, OpPop]) ''a'' ResourceHTML) = True
   \<and> Add (run_ops (snd (Add (run_ops NewQueue [OpAdd ''b'' ResourceCSS, OpPop]) ''a'' ResourceHTML))
            [OpPop, OpAdd ''c'' ResourceJS]) ''a'' ResourceImage
       = (False, run_ops (snd (Add (run_ops NewQueue [OpAdd ''b'' ResourceCSS, OpPop]) ''a'' ResourceHTML))
            [OpPop, OpAdd ''c'' ResourceJS])
   \<and> count_list (fst (add_same (run_ops NewQueue [OpAdd ''b'' ResourceCSS, OpPop]) ''a''
          [ResourceHTML, ResourceCSS, ResourceHTML])) True = 1"
proof -
  have h: "\<forall>t. OpAdd ''a'' t \<notin> set [OpAdd ''b'' ResourceCSS, OpPop]" by simp
  from C1_frontier_dedup_permanent [OF h, of ResourceHTML "[OpPop, OpAdd ''c'' ResourceJS]" ResourceImage
      "[ResourceHTML, ResourceCSS, ResourceHTML]"] h
  show ?thesis by blast
qed

section \<open>Go standard library functions used by the URL utilities\<close>

text \<open>
  The repository calls \<^verbatim>\<open>strings\<close>, \<^verbatim>\<open>path\<close> and \<^verbatim>\<open>net/url\<close> of the Go standard library.
  Their code is not part of the repository; the definitions of this section follow the
  library's source (Go 1.21). A Go string is a sequence of bytes, here a list of
  \<^typ>\<open>char\<close>.
\<close>

subsection \<open>strings\<close>

text \<open>
  \<^verbatim>\<open>strings.ToLower\<close> on ASCII letters. (Go also maps upper-case letters outside ASCII;
  a byte outside ASCII is left as it is here.)
\<close>

definition lower_byte :: "char \<Rightarrow> char" where
  "lower_byte c =
     (case map_of (zip ''ABCDEFGHIJKLMNOPQRSTUVWXYZ'' ''abcdefghijklmnopqrstuvwxyz'') c of
        Some d \<Rightarrow> d | None \<Rightarrow> c)"

definition strings_ToLower :: "string \<Rightarrow> string" where
  "strings_ToLower s = map lower_byte s"

definition strings_HasPrefix :: "string \<Rightarrow> string \<Rightarrow> bool" where
  "strings_HasPrefix s p \<longleftrightarrow> length p \<le> length s \<and> take (length p) s = p"

definition strings_HasSuffix :: "string \<Rightarrow> string \<Rightarrow> bool" where
  "strings_HasSuffix s p \<longleftrightarrow> length p \<le> length s \<and> drop (length s - length p) s = p"

definition strings_TrimSuffix :: "string \<Rightarrow> string \<Rightarrow> string" where
  "strings_TrimSuffix s p = (if strings_HasSuffix s p then take (length s - length p) s else s)"

fun strings_Contains :: "string \<Rightarrow> string \<Rightarrow> bool" where
  "strings_Contains [] sub \<longleftrightarrow> sub = []"
| "strings_Contains (c # s) sub \<longleftrightarrow> strings_HasPrefix (c # s) sub \<or> strings_Contains s sub"

text \<open>
  \<^verbatim>\<open>strings.Cut(s, sep)\<close> for a one-byte separator: the text before and after the first
  \<open>sep\<close>, and whether \<open>sep\<close> occurs.
\<close>

definition strings_Cut :: "string \<Rightarrow> char \<Rightarrow> string \<times> string \<times> bool" where
  "strings_Cut s sep =
     (if sep \<in> set s then (takeWhile (\<lambda>c. c \<noteq> sep) s, tl (dropWhile (\<lambda>c. c \<noteq> sep) s), True)
      else (s, [], False))"

text \<open>
  \<^verbatim>\<open>strings.LastIndex(s, sep)\<close> for a one-byte separator: \<open>None\<close> for \<open>-1\<close>.
\<close>

definition strings_LastIndex :: "string \<Rightarrow> char \<Rightarrow> nat option" where
  "strings_LastIndex s sep =
     (if sep \<in> set s then Some (length s - 1 - length (takeWhile (\<lambda>c. c \<noteq> sep) (rev s))) else None)"

text \<open>
  \<^verbatim>\<open>strings.TrimSpace\<close> for the ASCII white space \<^verbatim>\<open>\t \n \v \f \r\<close> and space. (Go also
  trims U+0085 and U+00A0.)
\<close>

definition is_space :: "char \<Rightarrow> bool" where
  "is_space c \<longleftrightarrow> (of_char c :: nat) \<in> {9, 10, 11, 12, 13, 32}"

definition strings_TrimSpace :: "string \<Rightarrow> string" where
  "strings_TrimSpace s = rev (dropWhile is_space (rev (dropWhile is_space s)))"

subsection \<open>path\<close>

text \<open>
  \<^verbatim>\<open>path.Ext\<close>: the suffix beginning at the final dot in the final slash-separated
  element; empty if there is no dot.
  \<^verbatim>\<open>for i := len(path) - 1; i >= 0 && path[i] != '/'; i-- { if path[i] == '.' { return path[i:] } }\<close>
\<close>

fun ext_scan :: "string \<Rightarrow> string \<Rightarrow> string" where
  "ext_scan [] acc = []"
| "ext_scan (c # r) acc =
     (if c = CHR ''/'' then []
      else if c = CHR ''.'' then c # acc
      else ext_scan r (c # acc))"

definition path_Ext :: "string \<Rightarrow> string" where
  "path_Ext p = ext_scan (rev p) []"

text \<open>
  \<^verbatim>\<open>path.Clean\<close>. The loop reads the rest of the path and writes to the buffer \<open>out\<close>
  (\<^verbatim>\<open>out.w\<close> is its length); \<open>dotdot\<close> is the index in the buffer where \<^verbatim>\<open>..\<close> must stop.
\<close>

text \<open>
  \<^verbatim>\<open>out.w--; for out.w > dotdot && out.index(out.w) != '/' { out.w-- }\<close>
\<close>

function backtrack :: "string \<Rightarrow> nat \<Rightarrow> nat \<Rightarrow> nat" where
  "backtrack out dotdot w =
     (if w > dotdot \<and> w < length out \<and> out ! w \<noteq> CHR ''/'' then backtrack out dotdot (w - 1) else w)"
  by pat_completeness auto
termination
  by (relation "measure (\<lambda>(out, dotdot, w). w)") auto

text \<open>
  The cases of the loop's \<^verbatim>\<open>switch\<close> at the byte \<open>c\<close> followed by \<open>r\<close>: a \<^verbatim>\<open>.\<close> element
  (\<^verbatim>\<open>path[r] == '.' && (r+1 == n || path[r+1] == '/')\<close>) and a \<^verbatim>\<open>..\<close> element
  (\<^verbatim>\<open>path[r] == '.' && path[r+1] == '.' && (r+2 == n || path[r+2] == '/')\<close>).
\<close>

definition is_dot_elem :: "char \<Rightarrow> string \<Rightarrow> bool" where
  "is_dot_elem c r \<longleftrightarrow> c = CHR ''.'' \<and> (r = [] \<or> hd r = CHR ''/'')"

definition is_dotdot_elem :: "char \<Rightarrow> string \<Rightarrow> bool" where
  "is_dotdot_elem c r \<longleftrightarrow> c = CHR ''.'' \<and> hd r = CHR ''.'' \<and> (tl r = [] \<or> hd (tl r) = CHR ''/'')"

text \<open>The buffer and \<open>dotdot\<close> after a \<^verbatim>\<open>..\<close> element.\<close>

definition clean_dotdot :: "bool \<Rightarrow> string \<Rightarrow> nat \<Rightarrow> string \<times> nat" where
  "clean_dotdot rooted out dotdot =
     (if length out > dotdot then (take (backtrack out dotdot (length out - 1)) out, dotdot)
      else if \<not> rooted then
        (let out1 = (if length out > 0 then out @ ''/'' else out) @ ''..'' in (out1, length out1))
      else (out, dotdot))"

text \<open>The buffer after a real path element: a slash if needed, then the element.\<close>

definition clean_elem :: "bool \<Rightarrow> char \<Rightarrow> string \<Rightarrow> string \<Rightarrow> string" where
  "clean_elem rooted c r out =
     (if rooted \<and> length out \<noteq> 1 \<or> \<not> rooted \<and> length out \<noteq> 0 then out @ ''/'' else out)
       @ c # takeWhile (\<lambda>x. x \<noteq> CHR ''/'') r"

text \<open>
  One round of the loop: the input still to read, the buffer and \<open>dotdot\<close> after it.
\<close>

definition clean_step ::
  "bool \<Rightarrow> char \<Rightarrow> string \<Rightarrow> string \<Rightarrow> nat \<Rightarrow> string \<times> string \<times> nat" where
  "clean_step rooted c r out dotdot =
     (if c = CHR ''/'' then (r, out, dotdot)
      else if is_dot_elem c r then (r, out, dotdot)
      else if is_dotdot_elem c r then (tl r, clean_dotdot rooted out dotdot)
      else (dropWhile (\<lambda>x. x \<noteq> CHR ''/'') r, clean_elem rooted c r out, dotdot))"

lemma clean_step_shorter: "length (fst (clean_step rooted c r out dotdot)) \<le> length r"
  by (simp add: clean_step_def length_dropWhile_le)

function clean_loop :: "bool \<Rightarrow> string \<Rightarrow> string \<Rightarrow> nat \<Rightarrow> string" where
  "clean_loop rooted [] out dotdot = out"
| "clean_loop rooted (c # r) out dotdot =
     (case clean_step rooted c r out dotdot of
        (rest, out1, dotdot1) \<Rightarrow> clean_loop rooted rest out1 dotdot1)"
  by pat_completeness auto
termination
proof (relation "measure (\<lambda>(rooted, rest, out, dotdot). length rest)")
  show "wf (measure (\<lambda>(rooted, rest, out, dotdot). length rest))" by simp
next
  fix rooted c r out dotdot x xa y xb yb
  assume "(xa, y) = clean_step rooted c r out dotdot"
  then have "xa = fst (clean_step rooted c r out dotdot)" by (metis fst_conv)
  then have "length xa \<le> length r" by (simp add: clean_step_shorter)
  then show "((rooted, xa, xb, yb), rooted, c # r, out, dotdot)
        \<in> measure (\<lambda>(rooted, rest, out, dotdot). length rest)" by simp
qed

definition path_Clean :: "string \<Rightarrow> string" where
  "path_Clean p =
     (if p = [] then ''.''
      else let rooted = (hd p = CHR ''/'');
               out = (if rooted then clean_loop rooted (tl p) ''/'' 1
                      else clean_loop rooted p [] 0)
           in if out = [] then ''.'' else out)"

text \<open>\<^verbatim>\<open>path.Dir\<close>: \<^verbatim>\<open>dir, _ := Split(path); return Clean(dir)\<close>, the text up to the last slash.\<close>

definition path_Dir :: "string \<Rightarrow> string" where
  "path_Dir p =
     path_Clean (case strings_LastIndex p (CHR ''/'') of None \<Rightarrow> [] | Some i \<Rightarrow> take (i + 1) p)"

subsection \<open>net/url\<close>

text \<open>
  \<^verbatim>\<open>type URL struct\<close> of \<^verbatim>\<open>net/url\<close> and its \<^verbatim>\<open>Userinfo\<close>. A nil \<^verbatim>\<open>*Userinfo\<close> is \<open>None\<close>.
\<close>

record Userinfo =
  username :: string
  password :: string
  passwordSet :: bool

record url_URL =
  Scheme :: string
  Opaque :: string
  User :: "Userinfo option"
  Host :: string
  Path :: string
  RawPath :: string
  OmitHost :: bool
  ForceQuery :: bool
  RawQuery :: string
  Fragment :: string
  RawFragment :: string

definition empty_URL :: url_URL where
  "empty_URL = \<lparr> Scheme = [], Opaque = [], User = None, Host = [], Path = [], RawPath = [],
     OmitHost = False, ForceQuery = False, RawQuery = [], Fragment = [], RawFragment = [] \<rparr>"

datatype encoding = encodePath | encodePathSegment | encodeHost | encodeZone
  | encodeUserPassword | encodeQueryComponent | encodeFragment

definition is_letter :: "char \<Rightarrow> bool" where
  "is_letter c \<longleftrightarrow> c \<in> set ''abcdefghijklmnopqrstuvwxyzABCDEFGHIJKLMNOPQRSTUVWXYZ''"

definition is_digit :: "char \<Rightarrow> bool" where
  "is_digit c \<longleftrightarrow> c \<in> set ''0123456789''"

text \<open>\<^verbatim>\<open>shouldEscape(c, mode)\<close>; \<open>CHR 0x27\<close> is the single quote, \<open>CHR 0x22\<close> the double quote.\<close>

definition shouldEscape :: "char \<Rightarrow> encoding \<Rightarrow> bool" where
  "shouldEscape c mode =
     (if is_letter c \<or> is_digit c then False
      else if (mode = encodeHost \<or> mode = encodeZone)
              \<and> c \<in> set (''!$&()*+,;=:[]<>'' @ [CHR 0x27, CHR 0x22]) then False
      else if c \<in> set ''-_.~'' then False
      else if c \<in> set ''$&+,/:;=?@'' \<and> mode = encodePath then c = CHR ''?''
      else if c \<in> set ''$&+,/:;=?@'' \<and> mode = encodePathSegment then c \<in> set ''/;,?''
      else if c \<in> set ''$&+,/:;=?@'' \<and> mode = encodeUserPassword then c \<in> set ''@/?:''
      else if c \<in> set ''$&+,/:;=?@'' \<and> mode = encodeQueryComponent then True
      else if c \<in> set ''$&+,/:;=?@'' \<and> mode = encodeFragment then False
      else if mode = encodeFragment \<and> c \<in> set ''!()*'' then False
      else True)"

definition ishex :: "char \<Rightarrow> bool" where
  "ishex c \<longleftrightarrow> c \<in> set ''0123456789abcdefABCDEF''"

definition unhex :: "char \<Rightarrow> nat" where
  "unhex c =
     (case map_of (zip ''0123456789abcdefABCDEF''
                       [0, 1, 2, 3, 4, 5, 6, 7, 8, 9, 10, 11, 12, 13, 14, 15, 10, 11, 12, 13, 14, 15]) c of
        Some n \<Rightarrow> n | None \<Rightarrow> 0)"

text \<open>
  \<^verbatim>\<open>unescape(s, mode)\<close>: \<open>None\<close> for an \<^verbatim>\<open>EscapeError\<close> or \<^verbatim>\<open>InvalidHostError\<close>. The source
  checks the whole string and then decodes it; one pass gives the same result.
\<close>

fun unescape :: "string \<Rightarrow> encoding \<Rightarrow> string option" where
  "unescape [] mode = Some []"
| "unescape (c # s) mode =
     (if c = CHR ''%'' then
        (case s of
           a # b # r \<Rightarrow>
             if \<not> ishex a \<or> \<not> ishex b then None
             else if mode = encodeHost \<and> unhex a < 8 \<and> (a, b) \<noteq> (CHR ''2'', CHR ''5'') then None
             else if mode = encodeZone \<and> (a, b) \<noteq> (CHR ''2'', CHR ''5'')
                     \<and> char_of (16 * unhex a + unhex b) \<noteq> CHR '' ''
                     \<and> shouldEscape (char_of (16 * unhex a + unhex b)) encodeHost then None
             else map_option (\<lambda>t. char_of (16 * unhex a + unhex b) # t) (unescape r mode)
         | _ \<Rightarrow> None)
      else if c = CHR ''+'' then
        map_option (\<lambda>t. (if mode = encodeQueryComponent then CHR '' '' else CHR ''+'') # t)
          (unescape s mode)
      else if (mode = encodeHost \<or> mode = encodeZone) \<and> (of_char c :: nat) < 128
              \<and> shouldEscape c encodeHost then None
      else map_option (\<lambda>t. c # t) (unescape s mode))"

definition upperhex :: "nat \<Rightarrow> char" where
  "upperhex n = ''0123456789ABCDEF'' ! n"

definition escape_byte :: "encoding \<Rightarrow> char \<Rightarrow> string" where
  "escape_byte mode c =
     (if c = CHR '' '' \<and> mode = encodeQueryComponent then ''+''
      else if shouldEscape c mode
        then [CHR ''%'', upperhex ((of_char c :: nat) div 16), upperhex ((of_char c :: nat) mod 16)]
      else [c])"

definition escape :: "string \<Rightarrow> encoding \<Rightarrow> string" where
  "escape s mode = concat (map (escape_byte mode) s)"

definition validEncoded :: "string \<Rightarrow> encoding \<Rightarrow> bool" where
  "validEncoded s mode \<longleftrightarrow>
     list_all (\<lambda>c. c \<in> set (''!$&()*+,;=:@[]%'' @ [CHR 0x27]) \<or> \<not> shouldEscape c mode) s"

text \<open>
  \<^verbatim>\<open>getScheme\<close>: \<open>None\<close> for "missing protocol scheme"; otherwise the scheme and the
  rest. \<open>sofar\<close> holds the bytes read so far, in reverse.
\<close>

fun getScheme_scan :: "string \<Rightarrow> string \<Rightarrow> string \<Rightarrow> (string \<times> string) option" where
  "getScheme_scan rawURL sofar [] = Some ([], rawURL)"
| "getScheme_scan rawURL sofar (c # r) =
     (if is_letter c then getScheme_scan rawURL (c # sofar) r
      else if is_digit c \<or> c \<in> set ''+-.'' then
        (if sofar = [] then Some ([], rawURL) else getScheme_scan rawURL (c # sofar) r)
      else if c = CHR '':'' then
        (if sofar = [] then None else Some (rev sofar, r))
      else Some ([], rawURL))"

definition getScheme :: "string \<Rightarrow> (string \<times> string) option" where
  "getScheme rawURL = getScheme_scan rawURL [] rawURL"

definition stringContainsCTLByte :: "string \<Rightarrow> bool" where
  "stringContainsCTLByte s \<longleftrightarrow> list_ex (\<lambda>b. (of_char b :: nat) < 32 \<or> (of_char b :: nat) = 127) s"

definition validOptionalPort :: "string \<Rightarrow> bool" where
  "validOptionalPort port \<longleftrightarrow>
     (case port of [] \<Rightarrow> True | c # ds \<Rightarrow> c = CHR '':'' \<and> list_all is_digit ds)"

fun strings_Index :: "string \<Rightarrow> string \<Rightarrow> nat option" where
  "strings_Index [] sub = (if sub = [] then Some 0 else None)"
| "strings_Index (c # s) sub =
     (if strings_HasPrefix (c # s) sub then Some 0 else map_option Suc (strings_Index s sub))"

definition parseHost :: "string \<Rightarrow> string option" where
  "parseHost host =
     (if strings_HasPrefix host ''['' then
        (case strings_LastIndex host (CHR '']'') of
           None \<Rightarrow> None
         | Some i \<Rightarrow>
             if \<not> validOptionalPort (drop (i + 1) host) then None
             else (case strings_Index (take i host) ''%25'' of
                     Some zone \<Rightarrow>
                       (case (unescape (take zone host) encodeHost,
                              unescape (drop zone (take i host)) encodeZone,
                              unescape (drop i host) encodeHost) of
                          (Some host1, Some host2, Some host3) \<Rightarrow> Some (host1 @ host2 @ host3)
                        | _ \<Rightarrow> None)
                   | None \<Rightarrow> unescape host encodeHost))
      else (case strings_LastIndex host (CHR '':'') of
              Some i \<Rightarrow> if \<not> validOptionalPort (drop i host) then None
                        else unescape host encodeHost
            | None \<Rightarrow> unescape host encodeHost))"

definition validUserinfo :: "string \<Rightarrow> bool" where
  "validUserinfo s \<longleftrightarrow>
     list_all (\<lambda>r. is_letter r \<or> is_digit r \<or> r \<in> set (''-._:~!$&()*+,;=%@'' @ [CHR 0x27])) s"

definition parseAuthority :: "string \<Rightarrow> (Userinfo option \<times> string) option" where
  "parseAuthority authority =
     (case strings_LastIndex authority (CHR ''@'') of
        None \<Rightarrow> map_option (\<lambda>h. (None, h)) (parseHost authority)
      | Some i \<Rightarrow>
          (case parseHost (drop (i + 1) authority) of
             None \<Rightarrow> None
           | Some h \<Rightarrow>
               let userinfo = take i authority
               in if \<not> validUserinfo userinfo then None
                  else if CHR '':'' \<notin> set userinfo then
                    map_option (\<lambda>n. (Some \<lparr> username = n, password = [], passwordSet = False \<rparr>, h))
                      (unescape userinfo encodeUserPassword)
                  else
                    (let (n, p, _) = strings_Cut userinfo (CHR '':'')
                     in case (unescape n encodeUserPassword, unescape p encodeUserPassword) of
                          (Some n', Some p') \<Rightarrow>
                            Some (Some \<lparr> username = n', password = p', passwordSet = True \<rparr>, h)
                        | _ \<Rightarrow> None)))"

definition setPath :: "url_URL \<Rightarrow> string \<Rightarrow> url_URL option" where
  "setPath u p =
     (case unescape p encodePath of
        None \<Rightarrow> None
      | Some path \<Rightarrow>
          Some (u\<lparr> Path := path, RawPath := (if p = escape path encodePath then [] else p) \<rparr>))"

definition setFragment :: "url_URL \<Rightarrow> string \<Rightarrow> url_URL option" where
  "setFragment u f =
     (case unescape f encodeFragment of
        None \<Rightarrow> None
      | Some frag \<Rightarrow>
          Some (u\<lparr> Fragment := frag, RawFragment := (if f = escape frag encodeFragment then [] else f) \<rparr>))"

text \<open>
  \<^verbatim>\<open>parse(rawURL, viaRequest)\<close> with \<^verbatim>\<open>viaRequest = false\<close>, as \<^verbatim>\<open>url.Parse\<close> calls it; \<open>None\<close>
  for an error.
\<close>

definition url_parse :: "string \<Rightarrow> url_URL option" where
  "url_parse rawURL =
     (if stringContainsCTLByte rawURL then None
      else if rawURL = ''*'' then Some (empty_URL\<lparr> Path := ''*'' \<rparr>)
      else case getScheme rawURL of
        None \<Rightarrow> None
      | Some (scheme, rest0) \<Rightarrow>
          let u0 = empty_URL\<lparr> Scheme := strings_ToLower scheme \<rparr>;
              (u1, rest) =
                (if strings_HasSuffix rest0 ''?'' \<and> count_list rest0 (CHR ''?'') = 1
                 then (u0\<lparr> ForceQuery := True \<rparr>, butlast rest0)
                 else let (r, q, _) = strings_Cut rest0 (CHR ''?'') in (u0\<lparr> RawQuery := q \<rparr>, r))
          in if \<not> strings_HasPrefix rest ''/'' \<and> Scheme u1 \<noteq> [] then Some (u1\<lparr> Opaque := rest \<rparr>)
             else if \<not> strings_HasPrefix rest ''/''
                     \<and> CHR '':'' \<in> set (fst (strings_Cut rest (CHR ''/''))) then None
             else if (Scheme u1 \<noteq> [] \<or> \<not> strings_HasPrefix rest ''///'')
                     \<and> strings_HasPrefix rest ''//'' then
               (let authority0 = drop 2 rest;
                    (authority, rest') =
                      (case strings_Index authority0 ''/'' of
                         Some i \<Rightarrow> (take i authority0, drop i authority0)
                       | None \<Rightarrow> (authority0, []))
                in case parseAuthority authority of
                     None \<Rightarrow> None
                   | Some (usr, h) \<Rightarrow> setPath (u1\<lparr> User := usr, Host := h \<rparr>) rest')
             else if Scheme u1 \<noteq> [] \<and> strings_HasPrefix rest ''/'' then
               setPath (u1\<lparr> OmitHost := True \<rparr>) rest
             else setPath u1 rest)"

text \<open>\<^verbatim>\<open>url.Parse\<close>: cut off the fragment, parse the rest, then set the fragment.\<close>

definition url_Parse :: "string \<Rightarrow> url_URL option" where
  "url_Parse rawURL =
     (let (u, frag, _) = strings_Cut rawURL (CHR ''#'')
      in case url_parse u of
           None \<Rightarrow> None
         | Some url \<Rightarrow> if frag = [] then Some url else setFragment url frag)"

definition IsAbs :: "url_URL \<Rightarrow> bool" where
  "IsAbs u \<longleftrightarrow> Scheme u \<noteq> []"

definition EscapedPath :: "url_URL \<Rightarrow> string" where
  "EscapedPath u =
     (if RawPath u \<noteq> [] \<and> validEncoded (RawPath u) encodePath
         \<and> unescape (RawPath u) encodePath = Some (Path u) then RawPath u
      else if Path u = ''*'' then ''*''
      else escape (Path u) encodePath)"

definition EscapedFragment :: "url_URL \<Rightarrow> string" where
  "EscapedFragment u =
     (if RawFragment u \<noteq> [] \<and> validEncoded (RawFragment u) encodeFragment
         \<and> unescape (RawFragment u) encodeFragment = Some (Fragment u) then RawFragment u
      else escape (Fragment u) encodeFragment)"

definition Userinfo_String :: "Userinfo \<Rightarrow> string" where
  "Userinfo_String ui =
     escape (username ui) encodeUserPassword
       @ (if passwordSet ui then '':'' @ escape (password ui) encodeUserPassword else [])"

text \<open>\<^verbatim>\<open>(*URL).String\<close>: the URL reassembled, the text written to the buffer piece by piece.\<close>

definition url_String :: "url_URL \<Rightarrow> string" where
  "url_String u =
     (let b1 = (if Scheme u \<noteq> [] then Scheme u @ '':'' else []);
          b2 =
            (if Opaque u \<noteq> [] then b1 @ Opaque u
             else
               let b3 =
                     (if Scheme u \<noteq> [] \<or> Host u \<noteq> [] \<or> User u \<noteq> None then
                        (if OmitHost u \<and> Host u = [] \<and> User u = None then b1
                         else b1
                           @ (if Host u \<noteq> [] \<or> Path u \<noteq> [] \<or> User u \<noteq> None then ''//'' else [])
                           @ (case User u of None \<Rightarrow> [] | Some ui \<Rightarrow> Userinfo_String ui @ ''@'')
                           @ (if Host u \<noteq> [] then escape (Host u) encodeHost else []))
                      else b1);
                   path = EscapedPath u;
                   b4 = (if path \<noteq> [] \<and> hd path \<noteq> CHR ''/'' \<and> Host u \<noteq> [] then b3 @ ''/'' else b3);
                   b5 = (if b4 = [] \<and> CHR '':'' \<in> set (fst (strings_Cut path (CHR ''/'')))
                         then b4 @ ''./'' else b4)
               in b5 @ path);
          b6 = (if ForceQuery u \<or> RawQuery u \<noteq> [] then b2 @ ''?'' @ RawQuery u else b2)
      in if Fragment u \<noteq> [] then b6 @ ''#'' @ EscapedFragment u else b6)"

section \<open>URL normalizer: internal/urlutil, Normalize\<close>

datatype urlutil_error =
    FailedToParseURL string
  | FailedToParseBaseURL string
  | RelativeNoBase string
  | RelativeURL string

text \<open>
  The part of \<^verbatim>\<open>Normalize\<close> after the URL is known to be absolute: lowercase scheme and
  host, remove a default port, remove the query, remove one trailing slash of a path
  other than \<^verbatim>\<open>/\<close>.
\<close>

definition normalize_fields :: "url_URL \<Rightarrow> url_URL" where
  "normalize_fields u0 =
     (let u1 = u0\<lparr> Scheme := strings_ToLower (Scheme u0) \<rparr>;
          u2 = u1\<lparr> Host := strings_ToLower (Host u1) \<rparr>;
          u3 = (if Scheme u2 = ''http'' \<and> strings_HasSuffix (Host u2) '':80''
                  then u2\<lparr> Host := strings_TrimSuffix (Host u2) '':80'' \<rparr>
                else if Scheme u2 = ''https'' \<and> strings_HasSuffix (Host u2) '':443''
                  then u2\<lparr> Host := strings_TrimSuffix (Host u2) '':443'' \<rparr>
                else u2);
          u4 = u3\<lparr> RawQuery := [] \<rparr>;
          u5 = u4\<lparr> ForceQuery := False \<rparr>
      in if Path u5 \<noteq> ''/'' \<and> strings_HasSuffix (Path u5) ''/''
           then u5\<lparr> Path := strings_TrimSuffix (Path u5) ''/'' \<rparr>
         else u5)"

text \<open>
  \<^verbatim>\<open>Normalize(rawURL, baseURL)\<close>. \<^verbatim>\<open>(*URL).ResolveReference\<close> of \<^verbatim>\<open>net/url\<close> is the parameter
  \<open>resolve\<close>; it is only called for a relative \<open>rawURL\<close> with a non-empty \<open>baseURL\<close>.
\<close>

definition Normalize ::
  "(url_URL \<Rightarrow> url_URL \<Rightarrow> url_URL) \<Rightarrow> string \<Rightarrow> string \<Rightarrow> urlutil_error + string" where
  "Normalize resolve rawURL baseURL =
     (case url_Parse rawURL of
        None \<Rightarrow> Inl (FailedToParseURL rawURL)
      | Some u \<Rightarrow>
          (case (if baseURL \<noteq> [] \<and> \<not> IsAbs u then
                   (case url_Parse baseURL of
                      None \<Rightarrow> Inl (FailedToParseBaseURL baseURL)
                    | Some base \<Rightarrow> Inr (resolve base u))
                 else Inr u) of
             Inl e \<Rightarrow> Inl e
           | Inr u' \<Rightarrow>
               if \<not> IsAbs u' then Inl (RelativeNoBase rawURL)
               else Inr (url_String (normalize_fields u'))))"

section \<open>Domain filter: internal/urlutil/filter.go\<close>

text \<open>\<^verbatim>\<open>type Filter struct { rootDomain string; rootPath string; whitelist map[string]bool }\<close>\<close>

record Filter =
  rootDomain :: string
  rootPath :: string
  whitelist :: "string \<rightharpoonup> bool"

definition NewFilter :: "string \<Rightarrow> string list \<Rightarrow> Filter" where
  "NewFilter rootURL whitelistDomains =
     (case url_Parse rootURL of
        None \<Rightarrow> \<lparr> rootDomain = [], rootPath = [], whitelist = Map.empty \<rparr>
      | Some u \<Rightarrow>
          let rootPath0 = path_Dir (Path u);
              rootPath1 = (if rootPath0 = ''.'' then ''/'' else rootPath0);
              wl = foldl (\<lambda>m domain. m(strings_ToLower domain \<mapsto> True)) Map.empty whitelistDomains
          in \<lparr> rootDomain = strings_ToLower (Host u), rootPath = rootPath1, whitelist = wl \<rparr>)"

definition whitelist_get :: "Filter \<Rightarrow> string \<Rightarrow> bool" where
  "whitelist_get f domain = (case whitelist f domain of None \<Rightarrow> False | Some b \<Rightarrow> b)"

definition IsAllowed :: "Filter \<Rightarrow> string \<Rightarrow> urlutil_error + bool" where
  "IsAllowed f rawURL =
     (case url_Parse rawURL of
        None \<Rightarrow> Inl (FailedToParseURL rawURL)
      | Some u \<Rightarrow>
          if \<not> IsAbs u then Inl (RelativeURL rawURL)
          else let domain = strings_ToLower (Host u)
               in if domain = rootDomain f then Inr (strings_HasPrefix (Path u) (rootPath f))
                  else if whitelist_get f domain then Inr True
                  else Inr False)"

text \<open>
  \<^verbatim>\<open>urlutil.DetectResourceType(rawURL, contentType)\<close>. \<^verbatim>\<open>strings.Split(contentType, ";")[0]\<close>
  is the text before the first semicolon. The cases of each \<^verbatim>\<open>switch\<close> are tried in the
  order of the source.
\<close>

definition DetectResourceType :: "string \<Rightarrow> string \<Rightarrow> ResourceType" where
  "DetectResourceType rawURL contentType =
     (let ct = strings_TrimSpace (strings_ToLower (fst (strings_Cut contentType (CHR '';''))));
          byType =
            (if contentType = [] then None
             else if strings_Contains ct ''text/html'' then Some ResourceHTML
             else if strings_Contains ct ''text/css'' then Some ResourceCSS
             else if strings_Contains ct ''javascript'' \<or> strings_Contains ct ''application/javascript''
                     \<or> strings_Contains ct ''application/x-javascript''
                     \<or> strings_Contains ct ''text/javascript'' then Some ResourceJS
             else if strings_HasPrefix ct ''image/'' then Some ResourceImage
             else if strings_Contains ct ''font'' \<or> strings_Contains ct ''woff''
                     \<or> strings_Contains ct ''ttf'' then Some ResourceFont
             else None)
      in case byType of
           Some rt \<Rightarrow> rt
         | None \<Rightarrow>
             (case url_Parse rawURL of
                None \<Rightarrow> ResourceOther
              | Some u \<Rightarrow>
                  let ext = strings_ToLower (path_Ext (Path u))
                  in if ext \<in> {''.html'', ''.htm''} then ResourceHTML
                     else if ext = ''.css'' then ResourceCSS
                     else if ext \<in> {''.js'', ''.mjs''} then ResourceJS
                     else if ext \<in> {''.png'', ''.jpg'', ''.jpeg'', ''.gif'', ''.svg'', ''.webp'', ''.ico'', ''.bmp''}
                       then ResourceImage
                     else if ext \<in> {''.woff'', ''.woff2'', ''.ttf'', ''.otf'', ''.eot''} then ResourceFont
                     else if ext \<in> {''.pdf'', ''.zip'', ''.tar'', ''.gz''} then ResourceOther
                     else if ext = [] then ResourceHTML
                     else ResourceUnknown))"

definition GetResourceType :: "Filter \<Rightarrow> string \<Rightarrow> string \<Rightarrow> ResourceType" where
  "GetResourceType f rawURL contentType = DetectResourceType rawURL contentType"

section \<open>The fetcher's own classification: internal/fetcher/resource_type.go\<close>

text \<open>
  The second classification variant. The declaration of its \<^verbatim>\<open>ResourceType\<close> constants is
  not among the sources; the seven names the function and its \<^verbatim>\<open>String\<close> method use are
  the constructors here.
\<close>

datatype fetcher_ResourceType =
    ResourceTypeUnknown | ResourceTypeHTML | ResourceTypeCSS | ResourceTypeJavaScript
  | ResourceTypeImage | ResourceTypeFont | ResourceTypeOther

definition fetcher_DetectResourceType :: "string \<Rightarrow> string \<Rightarrow> fetcher_ResourceType" where
  "fetcher_DetectResourceType url contentType =
     (let ct = strings_TrimSpace (strings_ToLower (fst (strings_Cut contentType (CHR '';''))));
          byType =
            (if contentType = [] then None
             else if strings_Contains ct ''text/html'' then Some ResourceTypeHTML
             else if strings_Contains ct ''text/css'' then Some ResourceTypeCSS
             else if strings_Contains ct ''javascript'' \<or> strings_Contains ct ''application/javascript''
                     \<or> strings_Contains ct ''application/x-javascript''
                     \<or> strings_Contains ct ''text/javascript'' then Some ResourceTypeJavaScript
             else if strings_HasPrefix ct ''image/'' then Some ResourceTypeImage
             else if strings_Contains ct ''font'' \<or> strings_Contains ct ''woff''
                     \<or> strings_Contains ct ''ttf'' then Some ResourceTypeFont
             else None)
      in case byType of
           Some rt \<Rightarrow> rt
         | None \<Rightarrow>
             let ext = strings_ToLower (path_Ext url)
             in if ext \<in> {''.html'', ''.htm''} then ResourceTypeHTML
                else if ext = ''.css'' then ResourceTypeCSS
                else if ext \<in> {''.js'', ''.mjs''} then ResourceTypeJavaScript
                else if ext \<in> {''.png'', ''.jpg'', ''.jpeg'', ''.gif'', ''.svg'', ''.webp'', ''.ico'', ''.bmp''}
                  then ResourceTypeImage
                else if ext \<in> {''.woff'', ''.woff2'', ''.ttf'', ''.otf'', ''.eot''} then ResourceTypeFont
                else if ext \<in> {''.pdf'', ''.zip'', ''.tar'', ''.gz''} then ResourceTypeOther
                else ResourceTypeUnknown)"

end
